theory Spec2Isabelle
  imports Main "HOL-Library.Log_Nat" "HOL-Library.Sublist"
begin

section \<open>Python values used by the retrieval pipeline\<close>

text \<open>
  The three Python classes \<open>CrossEncoderReranker\<close>, \<open>CorrectiveRAG\<close> (both in
  \<open>reranker\<close>) and \<open>RetrievalEngine\<close> are embedded below.  Python lists are HOL lists,
  Python \<open>int\<close> is \<open>int\<close>, Python \<open>str\<close> is \<open>string\<close> with one \<open>char\<close> per code point
  (code points up to U+00FF), and a raised exception is the \<open>Inl\<close> side of a sum.
\<close>

subsection \<open>Slicing, indexing, sorting\<close>

text \<open>\<open>xs[:k]\<close>: a negative stop counts from the end of the list.\<close>

definition py_take :: "int \<Rightarrow> 'a list \<Rightarrow> 'a list" where
  "py_take k xs = (if 0 \<le> k then take (nat k) xs else take (nat (int (length xs) + k)) xs)"

datatype exn = IndexError | ValueError | CollaboratorError string

text \<open>\<open>xs[i]\<close>: a negative index counts from the end, out of range raises.\<close>

definition py_index :: "'a list \<Rightarrow> int \<Rightarrow> exn + 'a" where
  "py_index xs i =
     (if 0 \<le> i \<and> i < int (length xs) then Inr (xs ! nat i)
      else if i < 0 \<and> - int (length xs) \<le> i then Inr (xs ! nat (int (length xs) + i))
      else Inl IndexError)"

text \<open>\<open>[xs[i] for i in idx]\<close>: the first failing index raises.\<close>

fun py_index_all :: "'a list \<Rightarrow> int list \<Rightarrow> exn + 'a list" where
  "py_index_all xs [] = Inr []"
| "py_index_all xs (i # idx) =
     (case py_index xs i of
        Inl e \<Rightarrow> Inl e
      | Inr x \<Rightarrow> (case py_index_all xs idx of Inl e \<Rightarrow> Inl e | Inr rest \<Rightarrow> Inr (x # rest)))"

text \<open>
  \<open>xs.sort(key=key, reverse=True)\<close>: the list is reversed, sorted stably in ascending
  order of the key, and reversed again, so elements with equal keys keep their order.
\<close>

definition sort_desc :: "('a \<Rightarrow> 'k::linorder) \<Rightarrow> 'a list \<Rightarrow> 'a list" where
  "sort_desc key xs = rev (sort_key key (rev xs))"

subsection \<open>Floats\<close>

text \<open>
  A Python \<open>float\<close> is an IEEE double.  The finite doubles are rationals and every
  operation returns the exact result rounded to the nearest double, ties to the even
  significand.  The values of this program lie between \<open>0\<close> and \<open>100\<close>, far from overflow
  and underflow, so the exponent is left unbounded and a double is the rational it denotes.
\<close>

definition round_half_even :: "rat \<Rightarrow> int" where
  "round_half_even y =
     (let f = \<lfloor>y\<rfloor>; r = y - of_int f
      in if r < 1 / 2 then f else if 1 / 2 < r then f + 1 else if even f then f else f + 1)"

text \<open>The exponent of a positive rational: \<open>2 powi ilog2 x \<le> x < 2 powi (ilog2 x + 1)\<close>.\<close>

definition ilog2 :: "rat \<Rightarrow> int" where
  "ilog2 x = (if 1 \<le> x then bitlen \<lfloor>x\<rfloor> - 1 else - bitlen (\<lceil>1 / x\<rceil> - 1))"

text \<open>Rounding to 53 significant bits.\<close>

definition fl :: "rat \<Rightarrow> rat" where
  "fl x = (if x = 0 then 0
           else let e = ilog2 \<bar>x\<bar> - 52
                in sgn x * of_int (round_half_even (\<bar>x\<bar> / 2 powi e)) * 2 powi e)"

text \<open>\<open>a / b\<close> on two \<open>int\<close>s (true division, correctly rounded) and \<open>x * y\<close> on floats.\<close>

definition fdiv :: "int \<Rightarrow> int \<Rightarrow> rat" where
  "fdiv a b = fl (of_int a / of_int b)"

definition fmul :: "rat \<Rightarrow> rat \<Rightarrow> rat" where
  "fmul x y = fl (x * y)"

text \<open>The literal \<open>0.6\<close> is the double nearest to six tenths.\<close>

definition lit_0_6 :: rat where
  "lit_0_6 = fl (6 / 10)"

subsection \<open>Documents\<close>

text \<open>
  A \<open>Document\<close> has \<open>page_content\<close> and a mutable \<open>metadata\<close> dict.  The stages write
  scores into the metadata of the very objects they were given, so a list of documents
  is a list of references into a heap of document objects.
\<close>

datatype meta_value = IntVal int | FloatVal rat | StrVal string

record document =
  page_content :: string
  metadata :: "string \<rightharpoonup> meta_value"

type_synonym ref = nat

type_synonym heap = "ref \<Rightarrow> document"

text \<open>\<open>doc.metadata[key] = v\<close>\<close>

definition set_metadata :: "heap \<Rightarrow> ref \<Rightarrow> string \<Rightarrow> meta_value \<Rightarrow> heap" where
  "set_metadata h doc key v = h(doc := (h doc)\<lparr>metadata := (metadata (h doc))(key \<mapsto> v)\<rparr>)"

text \<open>
  The calls made to the collaborators are recorded, in order, next to the heap.
\<close>

datatype event =
    SearchCall string "string option" int
  | FlashRankCall string "(int \<times> string) list"
  | PredictCall "(string \<times> string) list"
  | ExpandCall "ref list"

record world =
  objs :: heap
  calls :: "event list"

definition log_call :: "event \<Rightarrow> world \<Rightarrow> world" where
  "log_call ev w = w\<lparr>calls := calls w @ [ev]\<rparr>"

section \<open>CrossEncoderReranker\<close>

text \<open>
  \<open>available\<close> is set once by the constructor; \<open>model_predict\<close> is \<open>self.model.predict\<close>,
  which scores a batch of (query, text) pairs or raises.  Scores are finite floats.
\<close>

record cross_encoder_reranker =
  available :: bool
  model_predict :: "(string \<times> string) list \<Rightarrow> exn + rat list"

text \<open>The loop over \<open>scored_docs[:top_k]\<close> that annotates and collects the documents.\<close>

fun add_scores :: "(ref \<times> rat) list \<Rightarrow> heap \<Rightarrow> ref list \<times> heap" where
  "add_scores [] h = ([], h)"
| "add_scores ((doc, score) # rest) h =
     (let h1 = set_metadata h doc ''cross_encoder_score'' (FloatVal score);
          (result, h2) = add_scores rest h1
      in (doc # result, h2))"

definition rerank ::
  "cross_encoder_reranker \<Rightarrow> string \<Rightarrow> ref list \<Rightarrow> int \<Rightarrow> world \<Rightarrow> (exn + ref list) \<times> world" where
  "rerank self query docs top_k w =
     (if \<not> available self \<or> docs = [] then (Inr (py_take top_k docs), w)
      else
        let pairs = map (\<lambda>doc. (query, take 500 (page_content (objs w doc)))) docs;
            w1 = log_call (PredictCall pairs) w
        in case model_predict self pairs of
             Inl e \<Rightarrow> (Inl e, w1)
           | Inr scores \<Rightarrow>
               let scored_docs = sort_desc snd (zip docs scores);
                   (result, h) = add_scores (py_take top_k scored_docs) (objs w1)
               in (Inr result, w1\<lparr>objs := h\<rparr>))"

section \<open>CorrectiveRAG\<close>

text \<open>
  \<open>self.llm.invoke\<close> is a call to an external oracle that may answer differently each
  time: it takes its own state and the prompt, and returns a reply or raises.  A reply
  that is not a string fails at the slice, inside the same handler, and counts as a raise.
\<close>

type_synonym 's llm = "'s \<Rightarrow> string \<Rightarrow> (exn + string) \<times> 's"

definition relevance_prompt :: "string \<Rightarrow> document \<Rightarrow> string" where
  "relevance_prompt query doc =
     ''Rate how relevant this document is to the question.'' @ [CHR 0x0A] @
     ''Only respond with a number from 0-100.'' @ [CHR 0x0A] @ [CHR 0x0A] @
     ''QUESTION: '' @ take 200 query @ [CHR 0x0A] @
     ''DOCUMENT: '' @ take 300 (page_content doc) @ [CHR 0x0A] @ [CHR 0x0A] @
     ''RELEVANCE SCORE (0-100):''"

text \<open>
  \<open>str.isdigit\<close> holds of the decimal digits \<open>0\<close> to \<open>9\<close> and, among the code points up
  to U+00FF, of the superscripts two, three and one.  \<open>int\<close> reads decimal digits only:
  on the empty string and on a superscript it raises \<open>ValueError\<close>.
\<close>

definition is_decimal :: "char \<Rightarrow> bool" where
  "is_decimal c = (48 \<le> (of_char c :: nat) \<and> (of_char c :: nat) \<le> 57)"

definition isdigit :: "char \<Rightarrow> bool" where
  "isdigit c = (is_decimal c \<or> (of_char c :: nat) = 178 \<or> (of_char c :: nat) = 179
                 \<or> (of_char c :: nat) = 185)"

definition digit_value :: "char \<Rightarrow> int" where
  "digit_value c = int (of_char c) - 48"

text \<open>The number written by a string of decimal digits, most significant digit first.\<close>

definition decimal_value :: "string \<Rightarrow> int" where
  "decimal_value s = foldl (\<lambda>acc c. 10 * acc + digit_value c) 0 s"

text \<open>\<open>int(s)\<close> for a string \<open>s\<close> of \<open>isdigit\<close> characters.\<close>

definition int_of_digits :: "string \<Rightarrow> exn + int" where
  "int_of_digits s =
     (if s = [] \<or> \<not> list_all is_decimal s then Inl ValueError else Inr (decimal_value s))"

definition check_relevance :: "'s llm \<Rightarrow> string \<Rightarrow> document \<Rightarrow> 's \<Rightarrow> (bool \<times> int) \<times> 's" where
  "check_relevance llm query doc s =
     (let prompt = relevance_prompt query doc;
          (response, s1) = llm s prompt
      in case response of
           Inl e \<Rightarrow> ((True, 70), s1)
         | Inr reply \<Rightarrow>
             (case int_of_digits (filter isdigit (take 5 reply)) of
                Inl e \<Rightarrow> ((True, 70), s1)
              | Inr n \<Rightarrow> (let score = min n 100 in ((25 \<le> score, score), s1))))"

text \<open>The scoring loop of \<open>filter_documents\<close>.\<close>

fun score_docs ::
  "'s llm \<Rightarrow> string \<Rightarrow> ref list \<Rightarrow> heap \<Rightarrow> 's \<Rightarrow> (ref \<times> int) list \<times> heap \<times> 's" where
  "score_docs llm query [] h s = ([], h, s)"
| "score_docs llm query (doc # docs) h s =
     (let ((is_relevant, score), s1) = check_relevance llm query (h doc) s;
          h1 = set_metadata h doc ''relevance_score'' (IntVal score);
          (scored_docs, h2, s2) = score_docs llm query docs h1 s1
      in ((doc, score) # scored_docs, h2, s2))"

text \<open>
  \<open>avg_score = sum(...) / len(scored_docs)\<close> and
  \<open>dynamic_threshold = max(min_score, avg_score * 0.6)\<close>; the list is never empty here.
\<close>

definition dynamic_threshold :: "int \<Rightarrow> (ref \<times> int) list \<Rightarrow> rat" where
  "dynamic_threshold min_score scored_docs =
     (let avg_score = fdiv (sum_list (map snd scored_docs)) (int (length scored_docs))
      in max (of_int min_score) (fmul avg_score lit_0_6))"

text \<open>\<open>[doc for doc, score in scored_docs if score >= dynamic_threshold]\<close>\<close>

definition filter_by_threshold :: "rat \<Rightarrow> (ref \<times> int) list \<Rightarrow> ref list" where
  "filter_by_threshold thr scored_docs =
     map fst (filter (\<lambda>(doc, score). thr \<le> of_int score) scored_docs)"

definition filter_documents ::
  "'s llm \<Rightarrow> string \<Rightarrow> ref list \<Rightarrow> int \<Rightarrow> heap \<Rightarrow> 's \<Rightarrow> ref list \<times> heap \<times> 's" where
  "filter_documents llm query docs min_score h s =
     (if docs = [] then (docs, h, s)
      else
        let (scored_docs, h1, s1) = score_docs llm query docs h s;
            filtered = filter_by_threshold (dynamic_threshold min_score scored_docs) scored_docs
        in if filtered = [] \<and> docs \<noteq> []
           then (map fst (take 2 (sort_desc snd scored_docs)), h1, s1)
           else (filtered, h1, s1))"

section \<open>RetrievalEngine\<close>

text \<open>
  The document store, the FlashRank ranker and the configuration are collaborators of
  the engine.  \<open>store_search\<close> is \<open>store.get_retriever(category_filter, top_k).invoke(query)\<close>;
  \<open>flashrank\<close> is \<open>None\<close> when the ranker is not installed or failed to load, and
  otherwise maps the query and the numbered passages to the ids of its results, in
  their order, or raises.
\<close>

record retrieval_engine =
  store_search :: "string \<Rightarrow> string option \<Rightarrow> int \<Rightarrow> heap \<Rightarrow> exn + (ref list \<times> heap)"
  store_expand_to_parents :: "ref list \<Rightarrow> heap \<Rightarrow> exn + (ref list \<times> heap)"
  flashrank :: "(string \<Rightarrow> (int \<times> string) list \<Rightarrow> exn + int list) option"
  cross_encoder :: cross_encoder_reranker
  config_top_k_rerank :: int

definition flashrank_rerank ::
  "retrieval_engine \<Rightarrow> string \<Rightarrow> ref list \<Rightarrow> int \<Rightarrow> world \<Rightarrow> ref list \<times> world" where
  "flashrank_rerank self query docs top_k w =
     (case flashrank self of
        None \<Rightarrow> (docs, w)
      | Some ranker \<Rightarrow>
          let passages = map (\<lambda>(i, doc). (int i, page_content (objs w doc))) (enumerate 0 docs);
              w1 = log_call (FlashRankCall query passages) w
          in case ranker query passages of
               Inl e \<Rightarrow> (py_take top_k docs, w1)
             | Inr rerank_results \<Rightarrow>
                 (let top_indices = py_take top_k rerank_results
                  in case py_index_all docs top_indices of
                       Inl e \<Rightarrow> (py_take top_k docs, w1)
                     | Inr reranked \<Rightarrow> (reranked, w1)))"

definition retrieve ::
  "retrieval_engine \<Rightarrow> string \<Rightarrow> string option \<Rightarrow> int \<Rightarrow> bool \<Rightarrow> bool \<Rightarrow> world
     \<Rightarrow> (exn + ref list) \<times> world" where
  "retrieve self query category top_k use_rerank use_parent w =
     (let w0 = log_call (SearchCall query category top_k) w
      in case store_search self query category top_k (objs w0) of
           Inl e \<Rightarrow> (Inl e, w0)
         | Inr (docs, h) \<Rightarrow>
             (let w1 = w0\<lparr>objs := h\<rparr>
              in if docs = [] then (Inr [], w1)
                 else
                   let (docs2, w2) =
                         (if use_rerank \<and> flashrank self \<noteq> None \<and> 1 < length docs
                          then flashrank_rerank self query docs 5 w1 else (docs, w1));
                       (r3, w3) =
                         (if use_rerank \<and> available (cross_encoder self) \<and> 1 < length docs2
                          then rerank (cross_encoder self) query docs2 (config_top_k_rerank self) w2
                          else (Inr docs2, w2))
                   in case r3 of
                        Inl e \<Rightarrow> (Inl e, w3)
                      | Inr docs3 \<Rightarrow>
                          if use_parent
                          then (let w4 = log_call (ExpandCall docs3) w3
                                in case store_expand_to_parents self docs3 (objs w4) of
                                     Inl e \<Rightarrow> (Inl e, w4)
                                   | Inr (docs4, h4) \<Rightarrow> (Inr docs4, w4\<lparr>objs := h4\<rparr>))
                          else (Inr docs3, w3)))"

section \<open>The specification's reading of the score parser\<close>

text \<open>
  The specification describes the parser of \<open>check_relevance\<close> as taking the first run
  of digit characters within the first five characters of the reply.  This is that
  reading, written down to be compared with the code.
\<close>

definition first_digit_run :: "string \<Rightarrow> string" where
  "first_digit_run s = takeWhile isdigit (dropWhile (\<lambda>c. \<not> isdigit c) s)"

definition first_run_verdict :: "string \<Rightarrow> bool \<times> int" where
  "first_run_verdict reply =
     (let ds = first_digit_run (take 5 reply)
      in if ds = [] then (True, 70)
         else (25 \<le> min (decimal_value ds) 100, min (decimal_value ds) 100))"

section \<open>Auxiliary notions for the statements\<close>

text \<open>Every score of a scored list raised by the same amount.\<close>

definition shift_scores :: "int \<Rightarrow> (ref \<times> int) list \<Rightarrow> (ref \<times> int) list" where
  "shift_scores delta scored_docs = map (\<lambda>(doc, score). (doc, score + delta)) scored_docs"

text \<open>The calls that invoke one of the two reranking models.\<close>

fun is_model_call :: "event \<Rightarrow> bool" where
  "is_model_call (FlashRankCall q ps) = True"
| "is_model_call (PredictCall ps) = True"
| "is_model_call (SearchCall q c k) = False"
| "is_model_call (ExpandCall ds) = False"

section \<open>Concrete collaborators\<close>

definition doc_of :: "string \<Rightarrow> document" where
  "doc_of text = \<lparr>page_content = text, metadata = Map.empty\<rparr>"

definition heap0 :: heap where
  "heap0 = (\<lambda>r. doc_of ''passage'')"

definition world0 :: world where
  "world0 = \<lparr>objs = heap0, calls = []\<rparr>"

definition unavailable_encoder :: cross_encoder_reranker where
  "unavailable_encoder =
     \<lparr>available = False, model_predict = (\<lambda>pairs. Inl (CollaboratorError ''no model''))\<rparr>"

definition failing_encoder :: cross_encoder_reranker where
  "failing_encoder =
     \<lparr>available = True, model_predict = (\<lambda>pairs. Inl (CollaboratorError ''predict failed''))\<rparr>"

definition constant_encoder :: cross_encoder_reranker where
  "constant_encoder =
     \<lparr>available = True, model_predict = (\<lambda>pairs. Inr (map (\<lambda>p. 1 / 2) pairs))\<rparr>"

text \<open>A model whose scores differ, with one tie between the second and the fourth pair.\<close>

definition graded_encoder :: cross_encoder_reranker where
  "graded_encoder =
     \<lparr>available = True,
      model_predict = (\<lambda>pairs. Inr (take (length pairs) [1 / 4, 3 / 4, 1 / 2, 3 / 4]))\<rparr>"

text \<open>An oracle that answers from a script, one entry per call.\<close>

definition scripted_llm :: "(exn + string) list llm" where
  "scripted_llm s prompt =
     (case s of [] \<Rightarrow> (Inl (CollaboratorError ''no reply''), []) | r # rest \<Rightarrow> (r, rest))"

text \<open>
  An engine whose search finds the given documents, whose parent expansion is the
  identity, and whose rerankers are the given ones.
\<close>

definition example_engine ::
  "ref list \<Rightarrow> (string \<Rightarrow> (int \<times> string) list \<Rightarrow> exn + int list) option \<Rightarrow> cross_encoder_reranker
     \<Rightarrow> retrieval_engine" where
  "example_engine found ranker encoder =
     \<lparr>store_search = (\<lambda>q c k h. Inr (found, h)),
      store_expand_to_parents = (\<lambda>docs h. Inr (docs, h)),
      flashrank = ranker,
      cross_encoder = encoder,
      config_top_k_rerank = 3\<rparr>"

definition failing_ranker :: "string \<Rightarrow> (int \<times> string) list \<Rightarrow> exn + int list" where
  "failing_ranker q passages = Inl (CollaboratorError ''rerank failed'')"

definition reversing_ranker :: "string \<Rightarrow> (int \<times> string) list \<Rightarrow> exn + int list" where
  "reversing_ranker q passages = Inr (rev (map fst passages))"

section \<open>Slices and the descending sort\<close>

lemma py_take_map: "py_take k (map f xs) = map f (py_take k xs)"
  by (simp add: py_take_def take_map)

lemma length_py_take_le: "length (py_take k xs) \<le> length xs"
  by (auto simp add: py_take_def)

lemma sort_desc_const:
  assumes "\<forall>x\<in>set xs. key x = c"
  shows "sort_desc key xs = xs"
proof -
  have "\<forall>x\<in>set ys. key x = c \<Longrightarrow> sorted (map key ys)" for ys
    by (induction ys) auto
  with assms have "sorted (map key (rev xs))" by simp
  then have "sort_key key (rev xs) = rev xs" by (rule sort_key_id_if_sorted)
  then show ?thesis by (simp add: sort_desc_def)
qed

lemma set_sort_desc: "set (sort_desc key xs) = set xs"
  by (simp add: sort_desc_def)

lemma length_sort_desc: "length (sort_desc key xs) = length xs"
  by (simp add: sort_desc_def)

text \<open>The keys of the sorted list descend, and equal keys keep their input order.\<close>

lemma sort_desc_sorted: "sorted (rev (map key (sort_desc key xs)))"
  by (simp add: sort_desc_def rev_map[symmetric])

lemma sort_desc_stable:
  "filter (\<lambda>x. key x = k) (sort_desc key xs) = filter (\<lambda>x. key x = k) xs"
  by (simp add: sort_desc_def rev_filter[symmetric] sort_key_stable)

section \<open>CrossEncoderReranker.rerank\<close>

lemma fst_add_scores: "fst (add_scores xs h) = map fst xs"
  by (induction xs h rule: add_scores.induct) (simp_all add: split_beta Let_def)

text \<open>
  Claim C7.  When the model is unavailable or the list is empty, \<open>rerank\<close> returns
  \<open>docs[:top_k]\<close> and leaves the world as it was: no call to the model is recorded and
  no document of the heap is touched.
\<close>

theorem rerank_unavailable_or_empty:
  "\<not> available self \<or> docs = [] \<Longrightarrow>
     rerank self query docs top_k w = (Inr (py_take top_k docs), w)"
  by (simp add: rerank_def)

theorem rerank_unavailable_or_empty_witness:
  "\<not> available unavailable_encoder \<and>
   rerank unavailable_encoder ''q'' [0, 1, 2] 2 world0 = (Inr [0, 1], world0) \<and>
   rerank constant_encoder ''q'' [] 2 world0 = (Inr [], world0)"
  using rerank_unavailable_or_empty [of unavailable_encoder "[0, 1, 2]" "''q''" 2 world0]
    rerank_unavailable_or_empty [of constant_encoder "[]" "''q''" 2 world0]
  by (simp add: unavailable_encoder_def py_take_def)

lemma rerank_result:
  assumes "available self" and "docs \<noteq> []"
    and "model_predict self (map (\<lambda>doc. (query, take 500 (page_content (objs w doc)))) docs)
           = Inr scores"
  shows "fst (rerank self query docs top_k w) =
    Inr (map fst (py_take top_k (sort_desc snd (zip docs scores))))"
  using assms fst_add_scores[of "py_take top_k (sort_desc snd (zip docs scores))"]
  by (simp add: rerank_def Let_def split_beta)

text \<open>
  Claim C8.  When the model scores the batch, the result is the first \<open>top_k\<close> documents
  of the scored pairs sorted by \<open>sort_desc\<close>: the scores of the sorted pairs descend, and
  the pairs of any one score keep their input order.  So when the model gives every
  document the same score, the result is the input list cut to \<open>top_k\<close>, in input order.
\<close>

theorem rerank_tied_scores:
  assumes "model_predict self (map (\<lambda>doc. (query, take 500 (page_content (objs w doc)))) docs)
           = Inr scores"
  shows "(available self \<and> docs \<noteq> [] \<longrightarrow>
      fst (rerank self query docs top_k w) =
        Inr (map fst (py_take top_k (sort_desc snd (zip docs scores))))) \<and>
    sorted (rev (map snd (sort_desc snd (zip docs scores)))) \<and>
    (\<forall>k. filter (\<lambda>x. snd x = k) (sort_desc snd (zip docs scores)) =
         filter (\<lambda>x. snd x = k) (zip docs scores)) \<and>
    (length scores = length docs \<and> (\<forall>s\<in>set scores. s = c) \<longrightarrow>
      fst (rerank self query docs top_k w) = Inr (py_take top_k docs))"
proof -
  have general: "fst (rerank self query docs top_k w) =
      Inr (map fst (py_take top_k (sort_desc snd (zip docs scores))))"
    if "available self" "docs \<noteq> []"
    using that assms by (rule rerank_result)
  have tied: "fst (rerank self query docs top_k w) = Inr (py_take top_k docs)"
    if len: "length scores = length docs" and eq: "\<forall>s\<in>set scores. s = c"
  proof (cases "\<not> available self \<or> docs = []")
    case True
    then show ?thesis by (simp add: rerank_def)
  next
    case False
    have "\<forall>x\<in>set (zip docs scores). snd x = c"
      using eq by (auto dest: set_zip_rightD)
    then have "sort_desc snd (zip docs scores) = zip docs scores"
      by (rule sort_desc_const)
    moreover have "map fst (py_take top_k (zip docs scores)) = py_take top_k docs"
      using len by (simp add: py_take_map[symmetric])
    ultimately show ?thesis using general False by simp
  qed
  from general tied show ?thesis
    by (simp add: sort_desc_sorted sort_desc_stable)
qed

theorem rerank_tied_scores_witness:
  "available graded_encoder \<and>
   fst (rerank graded_encoder ''q'' [0, 1, 2, 3] 3 world0) = Inr [1, 3, 2] \<and>
   fst (rerank constant_encoder ''q'' [2, 0, 1] 2 world0) = Inr [2, 0]"
proof -
  have sorted: "map fst (py_take 3 (sort_desc snd
      (zip [0, 1, 2, 3 :: ref] [1 / 4, 3 / 4, 1 / 2, 3 / 4 :: rat]))) = [1, 3, 2]"
    by code_simp
  have a: "fst (rerank graded_encoder ''q'' [0, 1, 2, 3] 3 world0) = Inr [1, 3, 2]"
    using rerank_tied_scores [of graded_encoder "''q''" world0 "[0, 1, 2, 3]"
        "[1 / 4, 3 / 4, 1 / 2, 3 / 4]" 3 0, THEN conjunct1]
    unfolding sorted by (simp add: graded_encoder_def)
  have b: "fst (rerank constant_encoder ''q'' [2, 0, 1] 2 world0) = Inr [2, 0]"
    using rerank_tied_scores [of constant_encoder "''q''" world0 "[2, 0, 1]"
        "[1 / 2, 1 / 2, 1 / 2]" 2 "1 / 2", THEN conjunct2, THEN conjunct2, THEN conjunct2]
    by (simp add: constant_encoder_def py_take_def)
  from a b show ?thesis by (simp add: graded_encoder_def)
qed

text \<open>
  Claim C4.  With an available model whose scoring call raises, \<open>rerank\<close> has no handler
  around the call: the exception reaches the caller, after the call was made, and no
  list is returned.
\<close>

theorem rerank_predict_raises:
  assumes "available self" and "docs \<noteq> []"
    and "model_predict self (map (\<lambda>doc. (query, take 500 (page_content (objs w doc)))) docs) = Inl e"
  shows "rerank self query docs top_k w =
    (Inl e, log_call (PredictCall (map (\<lambda>doc. (query, take 500 (page_content (objs w doc)))) docs)) w)"
  using assms by (simp add: rerank_def Let_def)

theorem rerank_predict_raises_witness:
  "available failing_encoder \<and>
   rerank failing_encoder ''q'' [0, 1] 3 world0 =
     (Inl (CollaboratorError ''predict failed''),
      \<lparr>objs = heap0, calls = [PredictCall [(''q'', ''passage''), (''q'', ''passage'')]]\<rparr>)"
  using rerank_predict_raises [of failing_encoder "[0, 1]" "''q''" world0
      "CollaboratorError ''predict failed''" 3]
  by (simp add: failing_encoder_def world0_def heap0_def doc_of_def log_call_def)

section \<open>Rounding\<close>

text \<open>
  \<open>ilog2\<close> is the binary exponent, so \<open>fl\<close> rounds a significand between \<open>2 ^ 52\<close> and
  \<open>2 ^ 53\<close> to an integer, and its relative error is at most \<open>2 ^ - 53\<close>.
\<close>

lemma round_half_even_error: "\<bar>of_int (round_half_even y) - y\<bar> \<le> 1 / 2"
proof -
  have "of_int \<lfloor>y\<rfloor> \<le> y" "y < of_int \<lfloor>y\<rfloor> + 1" by linarith+
  then show ?thesis
    by (auto simp: round_half_even_def Let_def)
qed

lemma ilog2_lower:
  assumes "0 < x"
  shows "2 powi (ilog2 x) \<le> x"
proof (cases "1 \<le> x")
  case True
  define n where "n = \<lfloor>x\<rfloor>"
  have n: "0 < n" using True by (simp add: n_def)
  then have b: "1 \<le> bitlen n" by (simp add: bitlen_alt_def)
  have "(2::int) ^ nat (bitlen n - 1) \<le> n" using bitlen_bounds[OF n] by simp
  then have "rat_of_int (2 ^ nat (bitlen n - 1)) \<le> of_int n" by (simp only: of_int_le_iff)
  also have "\<dots> \<le> x" by (simp add: n_def)
  finally have "(2::rat) ^ nat (bitlen n - 1) \<le> x" by simp
  with True b show ?thesis by (simp add: ilog2_def n_def power_int_def)
next
  case False
  define N where "N = \<lceil>1 / x\<rceil> - 1"
  from False assms have "1 < 1 / x" by simp
  then have "1 < \<lceil>1 / x\<rceil>" by (simp add: less_ceiling_iff)
  then have N: "0 < N" by (simp add: N_def)
  have "N < 2 ^ nat (bitlen N)" using bitlen_bounds[OF N] by simp
  then have "\<lceil>1 / x\<rceil> \<le> 2 ^ nat (bitlen N)" by (simp add: N_def)
  then have "rat_of_int \<lceil>1 / x\<rceil> \<le> of_int (2 ^ nat (bitlen N))" by (simp only: of_int_le_iff)
  then have "1 / x \<le> 2 ^ nat (bitlen N)" by (simp add: ceiling_le_iff)
  with assms have "1 / 2 ^ nat (bitlen N) \<le> x"
    by (simp add: field_simps)
  moreover have "2 powi (- bitlen N) = 1 / (2::rat) ^ nat (bitlen N)"
    using bitlen_nonneg[of N] by (simp add: power_int_minus power_int_def inverse_eq_divide power_one_over)
  moreover have "ilog2 x = - bitlen N" using False by (simp add: ilog2_def N_def)
  ultimately show ?thesis by simp
qed

lemma ilog2_upper:
  assumes "0 < x"
  shows "x < 2 powi (ilog2 x + 1)"
proof (cases "1 \<le> x")
  case True
  define n where "n = \<lfloor>x\<rfloor>"
  have n: "0 < n" using True by (simp add: n_def)
  then have b: "1 \<le> bitlen n" by (simp add: bitlen_alt_def)
  have "n < 2 ^ nat (bitlen n)" using bitlen_bounds[OF n] by simp
  then have "x < of_int (2 ^ nat (bitlen n))" unfolding n_def by (simp only: floor_less_iff)
  with True b show ?thesis by (simp add: ilog2_def n_def power_int_def)
next
  case False
  define N where "N = \<lceil>1 / x\<rceil> - 1"
  from False assms have "1 < 1 / x" by simp
  then have "1 < \<lceil>1 / x\<rceil>" by (simp add: less_ceiling_iff)
  then have N: "0 < N" by (simp add: N_def)
  then have b: "1 \<le> bitlen N" by (simp add: bitlen_alt_def)
  have "2 ^ nat (bitlen N - 1) \<le> N" using bitlen_bounds[OF N] by simp
  then have "2 ^ nat (bitlen N - 1) < \<lceil>1 / x\<rceil>" by (simp add: N_def)
  then have "rat_of_int (2 ^ nat (bitlen N - 1)) < 1 / x" by (simp only: less_ceiling_iff)
  then have "2 ^ nat (bitlen N - 1) < 1 / x" by simp
  with assms have "x < 1 / 2 ^ nat (bitlen N - 1)"
    by (simp add: field_simps)
  moreover have "2 powi (- (bitlen N - 1)) = 1 / (2::rat) ^ nat (bitlen N - 1)"
    using b by (simp add: power_int_minus power_int_def inverse_eq_divide power_one_over)
  moreover have "ilog2 x + 1 = - (bitlen N - 1)" using False by (simp add: ilog2_def N_def)
  ultimately show ?thesis by simp
qed

lemma fl_error:
  assumes "0 \<le> x"
  shows "\<bar>fl x - x\<bar> \<le> x / 2 ^ 53"
proof (cases "x = 0")
  case True
  then show ?thesis by (simp add: fl_def)
next
  case False
  with assms have pos: "0 < x" by simp
  define e where "e = ilog2 x - 52"
  define p where "p = (2::rat) powi e"
  define y where "y = x / p"
  have p_pos: "0 < p" by (simp add: p_def zero_less_power_int)
  have "p = 2 powi (ilog2 x) / 2 ^ 52"
    by (simp add: p_def e_def power_int_diff)
  then have p_le: "p \<le> x / 2 ^ 52"
    using ilog2_lower[OF pos] by (simp add: divide_right_mono)
  have flx: "fl x = of_int (round_half_even y) * p"
    using pos by (simp add: fl_def Let_def e_def p_def y_def)
  have "y * p = x" using p_pos by (simp add: y_def)
  then have "fl x - x = (of_int (round_half_even y) - y) * p"
    by (simp add: flx algebra_simps)
  then have "\<bar>fl x - x\<bar> = \<bar>of_int (round_half_even y) - y\<bar> * p"
    using p_pos by (simp add: abs_mult)
  also have "\<dots> \<le> (1 / 2) * p"
    using round_half_even_error[of y] p_pos by (simp add: mult_right_mono)
  also have "\<dots> \<le> (1 / 2) * (x / 2 ^ 52)"
    using p_le by simp
  also have "\<dots> = x / 2 ^ 53" by simp
  finally show ?thesis .
qed

text \<open>
  The exponent is determined by its two bounds and grows with its argument; rounding is
  monotone, leaves the integers below \<open>2 ^ 53\<close> alone, stays within the binade, and is
  off by at most half a unit in the last place.
\<close>

lemma ilog2_unique:
  assumes "0 < x" "2 powi k \<le> x" "x < 2 powi (k + 1)"
  shows "ilog2 x = k"
proof (rule ccontr)
  assume ne: "ilog2 x \<noteq> k"
  show False
  proof (cases "ilog2 x < k")
    case True
    then have "(2::rat) powi (ilog2 x + 1) \<le> 2 powi k"
      by (intro power_int_increasing) simp_all
    with assms(2) ilog2_upper[OF assms(1)] show False by linarith
  next
    case False
    with ne have "k + 1 \<le> ilog2 x" by simp
    then have "(2::rat) powi (k + 1) \<le> 2 powi (ilog2 x)"
      by (intro power_int_increasing) simp_all
    with assms(3) ilog2_lower[OF assms(1)] show False by linarith
  qed
qed

lemma ilog2_mono:
  assumes "0 < x" "x \<le> y"
  shows "ilog2 x \<le> ilog2 y"
proof (rule ccontr)
  assume "\<not> ilog2 x \<le> ilog2 y"
  then have "ilog2 y + 1 \<le> ilog2 x" by simp
  then have "(2::rat) powi (ilog2 y + 1) \<le> 2 powi (ilog2 x)"
    by (intro power_int_increasing) simp_all
  moreover have "0 < y" using assms by linarith
  ultimately show False
    using ilog2_lower[OF assms(1)] ilog2_upper[of y] assms(2) by linarith
qed

lemma round_half_even_mono:
  assumes "x \<le> y"
  shows "round_half_even x \<le> round_half_even y"
proof (cases "\<lfloor>x\<rfloor> = \<lfloor>y\<rfloor>")
  case True
  with assms show ?thesis by (auto simp: round_half_even_def Let_def)
next
  case False
  with assms have "\<lfloor>x\<rfloor> + 1 \<le> \<lfloor>y\<rfloor>" using floor_mono[of x y] by linarith
  moreover have "round_half_even x \<le> \<lfloor>x\<rfloor> + 1" by (simp add: round_half_even_def Let_def)
  moreover have "\<lfloor>y\<rfloor> \<le> round_half_even y" by (simp add: round_half_even_def Let_def)
  ultimately show ?thesis by linarith
qed

lemma round_half_even_of_int [simp]: "round_half_even (of_int n) = n"
  by (simp add: round_half_even_def)

lemma round_half_even_near:
  assumes "of_int m \<le> y" "y < of_int m + 1 / 2"
  shows "round_half_even y = m"
proof -
  have "\<lfloor>y\<rfloor> = m" using assms by (intro floor_unique) linarith+
  with assms show ?thesis by (simp add: round_half_even_def Let_def)
qed

lemma fl_pos:
  assumes "0 < x"
  shows "fl x = of_int (round_half_even (x / 2 powi (ilog2 x - 52))) * 2 powi (ilog2 x - 52)"
  using assms by (simp add: fl_def Let_def)

lemma scaled_range:
  assumes "0 < x"
  shows "2 ^ 52 \<le> x / 2 powi (ilog2 x - 52)" and "x / 2 powi (ilog2 x - 52) < 2 ^ 53"
proof -
  define p where "p = (2::rat) powi (ilog2 x - 52)"
  have p_pos: "0 < p" by (simp add: p_def)
  have lo: "2 ^ 52 * p = 2 powi (ilog2 x)"
    by (simp add: p_def power_int_diff)
  have "2 powi (ilog2 x + 1) = 2 * (2::rat) powi (ilog2 x)"
    by (simp add: power_int_add)
  then have hi: "2 ^ 53 * p = 2 powi (ilog2 x + 1)"
    using lo by simp
  show "2 ^ 52 \<le> x / 2 powi (ilog2 x - 52)"
    using ilog2_lower[OF assms] lo p_pos by (simp add: p_def[symmetric] pos_le_divide_eq)
  show "x / 2 powi (ilog2 x - 52) < 2 ^ 53"
    using ilog2_upper[OF assms] hi p_pos by (simp add: p_def[symmetric] pos_divide_less_eq)
qed


lemma fl_binade:
  assumes "0 < x"
  shows "2 powi (ilog2 x) \<le> fl x" and "fl x \<le> 2 powi (ilog2 x + 1)"
proof -
  define p where "p = (2::rat) powi (ilog2 x - 52)"
  define y where "y = x / p"
  have p_pos: "0 < p" by (simp add: p_def)
  have lo: "2 powi (ilog2 x) = rat_of_int (2 ^ 52) * p"
    by (simp add: p_def power_int_diff)
  have "2 powi (ilog2 x + 1) = 2 * (2::rat) powi (ilog2 x)"
    by (simp add: power_int_add)
  then have hi: "2 powi (ilog2 x + 1) = rat_of_int (2 ^ 53) * p"
    using lo by simp
  have flx: "fl x = of_int (round_half_even y) * p"
    by (simp add: fl_pos[OF assms] y_def p_def)
  have y: "rat_of_int (2 ^ 52) \<le> y" "y \<le> rat_of_int (2 ^ 53)"
    using scaled_range[OF assms] by (simp_all add: y_def p_def)
  have "round_half_even (rat_of_int (2 ^ 52)) \<le> round_half_even y"
    using y(1) by (rule round_half_even_mono)
  then have "rat_of_int (2 ^ 52) \<le> of_int (round_half_even y)"
    by (simp only: round_half_even_of_int of_int_le_iff)
  then have "rat_of_int (2 ^ 52) * p \<le> of_int (round_half_even y) * p"
    using p_pos by (rule mult_right_mono[OF _ less_imp_le])
  then show "2 powi (ilog2 x) \<le> fl x"
    unfolding flx lo .
  have "round_half_even y \<le> round_half_even (rat_of_int (2 ^ 53))"
    using y(2) by (rule round_half_even_mono)
  then have "rat_of_int (round_half_even y) \<le> of_int (2 ^ 53)"
    by (simp only: round_half_even_of_int of_int_le_iff)
  then have "of_int (round_half_even y) * p \<le> rat_of_int (2 ^ 53) * p"
    using p_pos by (rule mult_right_mono[OF _ less_imp_le])
  then show "fl x \<le> 2 powi (ilog2 x + 1)"
    unfolding flx hi .
qed

lemma fl_zero [simp]: "fl 0 = 0"
  by (simp add: fl_def)

lemma fl_mono:
  assumes "0 \<le> x" "x \<le> y"
  shows "fl x \<le> fl y"
proof (cases "x = 0")
  case True
  have "0 \<le> fl y"
  proof (cases "y = 0")
    case True
    then show ?thesis by simp
  next
    case False
    with assms True have "0 < y" by simp
    from fl_binade(1)[OF this] show ?thesis
      using zero_less_power_int[of "2::rat" "ilog2 y"] by linarith
  qed
  with True show ?thesis by simp
next
  case False
  with assms have x: "0 < x" and y: "0 < y" by simp_all
  have le: "ilog2 x \<le> ilog2 y" using x assms(2) by (rule ilog2_mono)
  show ?thesis
  proof (cases "ilog2 x = ilog2 y")
    case True
    define p where "p = (2::rat) powi (ilog2 y - 52)"
    have p_pos: "0 < p" by (simp add: p_def)
    have "x / p \<le> y / p" using assms(2) p_pos by (simp add: divide_right_mono)
    then have "round_half_even (x / p) \<le> round_half_even (y / p)"
      by (rule round_half_even_mono)
    then have "rat_of_int (round_half_even (x / p)) \<le> of_int (round_half_even (y / p))"
      by (simp only: of_int_le_iff)
    then have "of_int (round_half_even (x / p)) * p \<le> of_int (round_half_even (y / p)) * p"
      using p_pos by simp
    then show ?thesis
      by (simp add: fl_pos[OF x] fl_pos[OF y] True p_def)
  next
    case False
    with le have "ilog2 x + 1 \<le> ilog2 y" by simp
    then have "(2::rat) powi (ilog2 x + 1) \<le> 2 powi (ilog2 y)"
      by (intro power_int_increasing) simp_all
    with fl_binade(2)[OF x] fl_binade(1)[OF y] show ?thesis by linarith
  qed
qed

lemma fl_of_int:
  assumes "0 \<le> k" "k < 2 ^ 53"
  shows "fl (of_int k) = of_int k"
proof (cases "k = 0")
  case True
  then show ?thesis by simp
next
  case False
  with assms have k: "0 < rat_of_int k" by simp
  define e where "e = ilog2 (of_int k)"
  have "rat_of_int k < of_int (2 ^ 53)" using assms(2) by (simp only: of_int_less_iff)
  then have "(2::rat) powi e < 2 powi 53"
    using ilog2_lower[OF k] by (simp add: e_def)
  then have e: "e \<le> 52"
    using power_int_increasing[of 53 e "2::rat"] by (cases "53 \<le> e") simp_all
  have p: "(2::rat) powi (e - 52) = 1 / 2 ^ nat (52 - e)"
    using e power_int_minus_divide[of "2::rat" "52 - e"] by (simp add: power_int_def)
  have "rat_of_int k / 2 powi (e - 52) = of_int (k * 2 ^ nat (52 - e))"
    by (simp add: p)
  then have "round_half_even (rat_of_int k / 2 powi (e - 52)) = k * 2 ^ nat (52 - e)"
    by (simp only: round_half_even_of_int)
  then show ?thesis
    by (simp add: fl_pos[OF k] e_def[symmetric] p)
qed

lemma fl_half_ulp:
  assumes "0 < x"
  shows "\<bar>fl x - x\<bar> \<le> 2 powi (ilog2 x) / 2 ^ 53"
proof -
  define p where "p = (2::rat) powi (ilog2 x - 52)"
  define y where "y = x / p"
  have p_pos: "0 < p" by (simp add: p_def)
  have p_eq: "p = 2 powi (ilog2 x) / 2 ^ 52"
    by (simp add: p_def power_int_diff)
  have "y * p = x" using p_pos by (simp add: y_def)
  then have "fl x - x = (of_int (round_half_even y) - y) * p"
    by (simp add: fl_pos[OF assms] y_def p_def algebra_simps)
  then have "\<bar>fl x - x\<bar> = \<bar>of_int (round_half_even y) - y\<bar> * p"
    using p_pos by (simp add: abs_mult)
  also have "\<dots> \<le> (1 / 2) * p"
    using round_half_even_error[of y] p_pos by (simp add: mult_right_mono)
  also have "\<dots> = 2 powi (ilog2 x) / 2 ^ 53" by (simp add: p_eq)
  finally show ?thesis .
qed

text \<open>A value less than half a unit in the last place above an integer rounds down to it.\<close>

lemma fl_round_down:
  assumes "0 < k" "k < 2 ^ 53" "of_int k \<le> y" "y < of_int k + 2 powi (ilog2 (of_int k)) / 2 ^ 53"
  shows "fl y = of_int k"
proof -
  define e where "e = ilog2 (rat_of_int k)"
  have k: "0 < rat_of_int k" using assms(1) by simp
  have y: "0 < y" using k assms(3) by linarith
  have "rat_of_int k < of_int (2 ^ 53)" using assms(2) by (simp only: of_int_less_iff)
  then have "(2::rat) powi e < 2 powi 53"
    using ilog2_lower[OF k] by (simp add: e_def)
  then have e52: "e \<le> 52"
    using power_int_increasing[of 53 e "2::rat"] by (cases "53 \<le> e") simp_all
  have "(1::rat) \<le> of_int k" using assms(1) by simp
  then have "(2::rat) powi 0 < 2 powi (e + 1)"
    using ilog2_upper[OF k] by (simp add: e_def)
  then have e0: "0 \<le> e"
    using power_int_increasing[of "e + 1" 0 "2::rat"] by (cases "e + 1 \<le> 0") simp_all
  have pe: "(2::rat) powi e = 2 ^ nat e" and pe1: "(2::rat) powi (e + 1) = 2 ^ nat (e + 1)"
    using e0 by (simp_all add: power_int_def)
  have "rat_of_int k < of_int (2 ^ nat (e + 1))"
    using ilog2_upper[OF k] by (simp add: e_def[symmetric] pe1)
  then have "k < 2 ^ nat (e + 1)" by (simp only: of_int_less_iff)
  then have "k + 1 \<le> 2 ^ nat (e + 1)" by simp
  then have "rat_of_int (k + 1) \<le> of_int (2 ^ nat (e + 1))" by (simp only: of_int_le_iff)
  then have k1: "rat_of_int k + 1 \<le> 2 powi (e + 1)" by (simp add: pe1)
  have "nat e \<le> 52" using e52 by simp
  then have "(2::rat) ^ nat e \<le> 2 ^ 52" by (intro power_increasing) simp_all
  then have "(2::rat) powi e / 2 ^ 53 < 1" by (simp add: pe)
  with assms(4) k1 have upper: "y < 2 powi (e + 1)" by (simp add: e_def[symmetric])
  have "2 powi e \<le> y" using ilog2_lower[OF k] assms(3) by (simp add: e_def[symmetric])
  with y upper have ey: "ilog2 y = e" by (intro ilog2_unique)
  define p where "p = (2::rat) powi (e - 52)"
  have p_pos: "0 < p" by (simp add: p_def)
  have p: "p = 1 / 2 ^ nat (52 - e)"
    using e52 power_int_minus_divide[of "2::rat" "52 - e"] by (simp add: p_def power_int_def)
  have half: "2 powi e / 2 ^ 53 = p / 2"
    by (simp add: p_def power_int_diff)
  define m where "m = k * 2 ^ nat (52 - e)"
  have mk: "rat_of_int m * p = of_int k" by (simp add: m_def p)
  have "y < rat_of_int k + p / 2"
    using assms(4) unfolding e_def[symmetric] half .
  with assms(3) have "rat_of_int m * p \<le> y" "y < rat_of_int m * p + p / 2"
    by (simp_all add: mk)
  then have "rat_of_int m \<le> y / p" "y / p < rat_of_int m + 1 / 2"
    using p_pos by (simp_all add: pos_le_divide_eq pos_divide_less_eq algebra_simps)
  then have "round_half_even (y / p) = m" by (rule round_half_even_near)
  then show ?thesis
    by (simp add: fl_pos[OF y] ey p_def[symmetric] mk)
qed

section \<open>CorrectiveRAG.check_relevance\<close>

lemma decimal_value_nonneg:
  assumes "list_all is_decimal s"
  shows "0 \<le> decimal_value s"
proof -
  have "0 \<le> acc \<Longrightarrow> list_all is_decimal s \<Longrightarrow> 0 \<le> foldl (\<lambda>acc c. 10 * acc + digit_value c) acc s"
    for acc
    by (induction s arbitrary: acc) (auto simp: is_decimal_def digit_value_def)
  with assms show ?thesis by (simp add: decimal_value_def)
qed

text \<open>Every verdict carries a score between 0 and 100.\<close>

lemma check_relevance_range:
  "0 \<le> snd (fst (check_relevance llm query doc s)) \<and>
   snd (fst (check_relevance llm query doc s)) \<le> 100"
  by (auto simp: check_relevance_def Let_def split_beta int_of_digits_def
      dest: decimal_value_nonneg split: sum.splits if_splits)

text \<open>
  Claim C6, as the code has it.  The digits among the first five characters of the
  reply are concatenated, whether or not they are adjacent, and read as one decimal
  number.  The verdict is \<open>(True, 70)\<close> when the oracle raises, when there is no digit
  there, and when one of the digits is not a decimal digit (\<open>int\<close> raises on it);
  otherwise the score is the number capped at 100 and the document is relevant from 25 up.
\<close>

theorem check_relevance_verdict:
  "fst (check_relevance llm query doc s) =
     (case fst (llm s (relevance_prompt query doc)) of
        Inl e \<Rightarrow> (True, 70)
      | Inr reply \<Rightarrow>
          (let ds = filter isdigit (take 5 reply)
           in if ds = [] \<or> \<not> list_all is_decimal ds then (True, 70)
              else (25 \<le> min (decimal_value ds) 100, min (decimal_value ds) 100)))"
  by (simp add: check_relevance_def Let_def split_beta int_of_digits_def split: sum.splits)

theorem check_relevance_verdict_witness:
  "fst (check_relevance scripted_llm ''q'' (doc_of ''d'') [Inr ''2 / 5'']) = (True, 25) \<and>
   fst (check_relevance scripted_llm ''q'' (doc_of ''d'') [Inr ''975'']) = (True, 100) \<and>
   fst (check_relevance scripted_llm ''q'' (doc_of ''d'') [Inr ''none'']) = (True, 70) \<and>
   fst (check_relevance scripted_llm ''q'' (doc_of ''d'') [Inl ValueError]) = (True, 70)"
  using check_relevance_verdict [of scripted_llm "''q''" "doc_of ''d''" "[Inr ''2 / 5'']"]
    check_relevance_verdict [of scripted_llm "''q''" "doc_of ''d''" "[Inr ''975'']"]
    check_relevance_verdict [of scripted_llm "''q''" "doc_of ''d''" "[Inr ''none'']"]
    check_relevance_verdict [of scripted_llm "''q''" "doc_of ''d''" "[Inl ValueError]"]
  by (simp add: scripted_llm_def isdigit_def is_decimal_def decimal_value_def digit_value_def)

text \<open>
  The reply \<open>2 / 5\<close> separates the code from the first-run reading of claim C6: the
  code reads 25 and finds the document relevant, the first run is 2 and not relevant.
\<close>

theorem check_relevance_first_run_counterexample:
  "fst (check_relevance scripted_llm ''q'' (doc_of ''d'') [Inr ''2 / 5''])
     \<noteq> first_run_verdict ''2 / 5''"
  by code_simp

section \<open>RetrievalEngine._flashrank_rerank\<close>

text \<open>
  Claim C5, as the code has it.  When the ranker raises, the handler returns
  \<open>docs[:top_k]\<close>: the first \<open>top_k\<close> documents in input order, with the heap untouched.
\<close>

theorem flashrank_rerank_error:
  assumes "flashrank self = Some ranker"
    and "ranker query (map (\<lambda>(i, doc). (int i, page_content (objs w doc))) (enumerate 0 docs)) = Inl e"
  shows "fst (flashrank_rerank self query docs top_k w) = py_take top_k docs \<and>
         objs (snd (flashrank_rerank self query docs top_k w)) = objs w"
  using assms by (simp add: flashrank_rerank_def Let_def log_call_def)

theorem flashrank_rerank_error_witness:
  "flashrank (example_engine [] (Some failing_ranker) unavailable_encoder) = Some failing_ranker \<and>
   fst (flashrank_rerank (example_engine [] (Some failing_ranker) unavailable_encoder)
          ''q'' [0, 1, 2, 3, 4, 5] 5 world0) = [0, 1, 2, 3, 4]"
  using flashrank_rerank_error [of "example_engine [] (Some failing_ranker) unavailable_encoder"
      failing_ranker "''q''" world0 "[0, 1, 2, 3, 4, 5]" "CollaboratorError ''rerank failed''" 5]
  by (simp add: example_engine_def failing_ranker_def py_take_def)

text \<open>
  With six documents and the default width 5 the handler returns five of them, so the
  input does not come back whole as claim C5 has it.
\<close>

theorem flashrank_rerank_error_counterexample:
  "fst (flashrank_rerank (example_engine [] (Some failing_ranker) unavailable_encoder)
          ''q'' [0, 1, 2, 3, 4, 5] 5 world0) \<noteq> [0, 1, 2, 3, 4, 5]"
  by code_simp

section \<open>RetrievalEngine.retrieve\<close>

text \<open>
  Claim C9.  If the search finds nothing, \<open>retrieve\<close> returns the empty list and the
  only call recorded is the search.  If it finds one document, no call to FlashRank or
  to the cross-encoder is recorded, and that document, in the heap the search left,
  is what parent expansion receives or, without expansion, what is returned.
\<close>

theorem retrieve_empty_or_single:
  "(store_search self query category top_k (objs w) = Inr ([], h) \<longrightarrow>
      retrieve self query category top_k use_rerank use_parent w =
        (Inr [], \<lparr>objs = h, calls = calls w @ [SearchCall query category top_k]\<rparr>)) \<and>
   (store_search self query category top_k (objs w) = Inr ([d], h) \<longrightarrow>
      retrieve self query category top_k use_rerank use_parent w =
        (let w1 = \<lparr>objs = h, calls = calls w @ [SearchCall query category top_k]\<rparr>;
             w4 = log_call (ExpandCall [d]) w1
         in if use_parent
            then (case store_expand_to_parents self [d] h of
                    Inl e \<Rightarrow> (Inl e, w4)
                  | Inr (docs4, h4) \<Rightarrow> (Inr docs4, w4\<lparr>objs := h4\<rparr>))
            else (Inr [d], w1)) \<and>
      filter is_model_call (calls (snd (retrieve self query category top_k use_rerank use_parent w)))
        = filter is_model_call (calls w))"
  by (auto simp: retrieve_def Let_def log_call_def split: sum.splits prod.splits)

theorem retrieve_empty_or_single_witness:
  "retrieve (example_engine [] (Some reversing_ranker) constant_encoder) ''q'' None 10 True True world0
     = (Inr [], \<lparr>objs = heap0, calls = [SearchCall ''q'' None 10]\<rparr>) \<and>
   retrieve (example_engine [4] (Some reversing_ranker) constant_encoder) ''q'' None 10 True True world0
     = (Inr [4], \<lparr>objs = heap0, calls = [SearchCall ''q'' None 10, ExpandCall [4]]\<rparr>)"
  using retrieve_empty_or_single [of "example_engine [] (Some reversing_ranker) constant_encoder"
      "''q''" None 10 world0 heap0 True True 4]
    retrieve_empty_or_single [of "example_engine [4] (Some reversing_ranker) constant_encoder"
      "''q''" None 10 world0 heap0 True True 4]
  by (simp add: example_engine_def world0_def log_call_def Let_def)

section \<open>CorrectiveRAG.filter_documents\<close>

text \<open>The scoring loop pairs every document, in order, with a score between 0 and 100.\<close>

lemma score_docs_fst: "map fst (fst (score_docs llm query docs h s)) = docs"
  by (induction docs arbitrary: h s) (simp_all add: split_beta Let_def)

lemma score_docs_range:
  "\<forall>x\<in>set (fst (score_docs llm query docs h s)). 0 \<le> snd x \<and> snd x \<le> 100"
proof (induction docs arbitrary: h s)
  case Nil
  show ?case by simp
next
  case (Cons doc docs)
  show ?case
    using check_relevance_range[of llm query "h doc" s] Cons.IH
    by (simp add: split_beta Let_def)
qed

lemma filter_documents_nonempty:
  assumes "docs \<noteq> []"
  shows "fst (filter_documents llm query docs min_score h s) =
     (let scored_docs = fst (score_docs llm query docs h s);
          filtered = filter_by_threshold (dynamic_threshold min_score scored_docs) scored_docs
      in if filtered = [] then map fst (take 2 (sort_desc snd scored_docs)) else filtered)"
  using assms by (simp add: filter_documents_def split_beta Let_def)

lemma subseq_filter_by_threshold: "subseq (filter_by_threshold thr scored) (map fst scored)"
  by (simp add: filter_by_threshold_def subseq_map)

text \<open>
  Claim C1, as the code has it.  For a non-empty list the result has at least
  \<open>min 2 (length docs)\<close> documents unless exactly one document meets the threshold; then
  the fallback does not run and that document alone is returned.  When no document
  meets the threshold the result has exactly \<open>min 2 (length docs)\<close> documents.
\<close>

theorem filter_documents_length:
  assumes "docs \<noteq> []"
  shows "(length (filter_by_threshold
          (dynamic_threshold min_score (fst (score_docs llm query docs h s)))
          (fst (score_docs llm query docs h s))) \<noteq> 1 \<longrightarrow>
      min 2 (length docs) \<le> length (fst (filter_documents llm query docs min_score h s))) \<and>
    (length (filter_by_threshold
          (dynamic_threshold min_score (fst (score_docs llm query docs h s)))
          (fst (score_docs llm query docs h s))) = 1 \<longrightarrow>
      fst (filter_documents llm query docs min_score h s) =
        filter_by_threshold
          (dynamic_threshold min_score (fst (score_docs llm query docs h s)))
          (fst (score_docs llm query docs h s))) \<and>
    (filter_by_threshold
        (dynamic_threshold min_score (fst (score_docs llm query docs h s)))
        (fst (score_docs llm query docs h s)) = [] \<longrightarrow>
      length (fst (filter_documents llm query docs min_score h s)) = min 2 (length docs)) \<and>
    1 \<le> length (fst (filter_documents llm query docs min_score h s))"
proof -
  define scored where "scored = fst (score_docs llm query docs h s)"
  define kept where "kept = filter_by_threshold (dynamic_threshold min_score scored) scored"
  define result where "result = fst (filter_documents llm query docs min_score h s)"
  have "length (map fst scored) = length docs"
    unfolding scored_def by (simp only: score_docs_fst)
  then have len: "length scored = length docs" by simp
  have res: "result = (if kept = [] then map fst (take 2 (sort_desc snd scored)) else kept)"
    using filter_documents_nonempty[OF assms, of llm query min_score h s]
    by (simp add: Let_def scored_def kept_def result_def)
  have fallback: "length (map fst (take 2 (sort_desc snd scored))) = min 2 (length docs)"
    by (simp add: length_sort_desc len min.commute)
  have pos: "1 \<le> min 2 (length docs)" using assms by (cases docs) simp_all
  have empty: "length result = min 2 (length docs)" if "kept = []"
    using that res fallback by simp
  have same: "result = kept" if "kept \<noteq> []"
    using that res by simp
  have many: "min 2 (length docs) \<le> length result" if "length kept \<noteq> 1"
  proof (cases "kept = []")
    case True
    then show ?thesis using empty by simp
  next
    case False
    then have "1 \<le> length kept" by (cases kept) simp_all
    with that have "2 \<le> length kept" by simp
    with same[OF False] show ?thesis by simp
  qed
  have one: "result = kept" if "length kept = 1"
    using that same by (cases "kept = []") simp_all
  have least: "1 \<le> length result"
  proof (cases "kept = []")
    case True
    then show ?thesis using empty pos by simp
  next
    case False
    then have "1 \<le> length kept" by (cases kept) simp_all
    with same[OF False] show ?thesis by simp
  qed
  from many one empty least show ?thesis
    unfolding result_def kept_def scored_def by blast
qed

theorem filter_documents_length_witness:
  "[0, 1, 2] \<noteq> ([] :: ref list) \<and>
   length (fst (filter_documents scripted_llm ''q'' [0, 1, 2] 25 heap0
          [Inr ''10'', Inr ''0'', Inr ''0''])) = 2 \<and>
   fst (filter_documents scripted_llm ''q'' [0, 1, 2] 25 heap0
          [Inr ''0'', Inr ''100'', Inr ''0'']) = [1] \<and>
   2 \<le> length (fst (filter_documents scripted_llm ''q'' [0, 1, 2] 25 heap0
          [Inr ''90'', Inr ''10'', Inr ''80'']))"
proof -
  have a: "filter_by_threshold
      (dynamic_threshold 25 (fst (score_docs scripted_llm ''q'' [0, 1, 2] heap0
         [Inr ''10'', Inr ''0'', Inr ''0''])))
      (fst (score_docs scripted_llm ''q'' [0, 1, 2] heap0 [Inr ''10'', Inr ''0'', Inr ''0''])) = []"
    by code_simp
  have b: "filter_by_threshold
      (dynamic_threshold 25 (fst (score_docs scripted_llm ''q'' [0, 1, 2] heap0
         [Inr ''0'', Inr ''100'', Inr ''0''])))
      (fst (score_docs scripted_llm ''q'' [0, 1, 2] heap0 [Inr ''0'', Inr ''100'', Inr ''0''])) = [1]"
    by code_simp
  have c: "filter_by_threshold
      (dynamic_threshold 25 (fst (score_docs scripted_llm ''q'' [0, 1, 2] heap0
         [Inr ''90'', Inr ''10'', Inr ''80''])))
      (fst (score_docs scripted_llm ''q'' [0, 1, 2] heap0 [Inr ''90'', Inr ''10'', Inr ''80''])) = [0, 2]"
    by code_simp
  show ?thesis
    using filter_documents_length [of "[0, 1, 2]" 25 scripted_llm "''q''" heap0
        "[Inr ''10'', Inr ''0'', Inr ''0'']"]
      filter_documents_length [of "[0, 1, 2]" 25 scripted_llm "''q''" heap0
        "[Inr ''0'', Inr ''100'', Inr ''0'']"]
      filter_documents_length [of "[0, 1, 2]" 25 scripted_llm "''q''" heap0
        "[Inr ''90'', Inr ''10'', Inr ''80'']"]
    unfolding a b c by simp
qed

text \<open>
  Scores 100, 0, 0 with \<open>min_score = 25\<close>: the mean is a third of 100, the threshold is
  25, one document meets it, and the result has one document where claim C1 wants two.
\<close>

theorem filter_documents_length_counterexample:
  "length (fst (filter_documents scripted_llm ''q'' [0, 1, 2] 25 heap0
       [Inr ''100'', Inr ''0'', Inr ''0'']))
     < min 2 (length [0, 1, 2 :: ref])"
  by code_simp

text \<open>
  Claim C10.  When some document meets the threshold the result is the list of those
  documents, a subsequence of the input in input order.  When none does, the result is
  the first two entries of the scored list sorted by descending score, where equal
  scores keep their input order.
\<close>

theorem filter_documents_order:
  assumes "docs \<noteq> []"
  shows "(filter_by_threshold
        (dynamic_threshold min_score (fst (score_docs llm query docs h s)))
        (fst (score_docs llm query docs h s)) \<noteq> [] \<longrightarrow>
      fst (filter_documents llm query docs min_score h s) =
        filter_by_threshold
          (dynamic_threshold min_score (fst (score_docs llm query docs h s)))
          (fst (score_docs llm query docs h s)) \<and>
      subseq (fst (filter_documents llm query docs min_score h s)) docs) \<and>
    (filter_by_threshold
        (dynamic_threshold min_score (fst (score_docs llm query docs h s)))
        (fst (score_docs llm query docs h s)) = [] \<longrightarrow>
      fst (filter_documents llm query docs min_score h s) =
        map fst (take 2 (sort_desc snd (fst (score_docs llm query docs h s))))) \<and>
    sorted (rev (map snd (sort_desc snd (fst (score_docs llm query docs h s))))) \<and>
    (\<forall>k. filter (\<lambda>x. snd x = k) (sort_desc snd (fst (score_docs llm query docs h s))) =
         filter (\<lambda>x. snd x = k) (fst (score_docs llm query docs h s)))"
proof -
  define scored where "scored = fst (score_docs llm query docs h s)"
  define kept where "kept = filter_by_threshold (dynamic_threshold min_score scored) scored"
  have res: "fst (filter_documents llm query docs min_score h s) =
      (if kept = [] then map fst (take 2 (sort_desc snd scored)) else kept)"
    using filter_documents_nonempty[OF assms, of llm query min_score h s]
    by (simp add: Let_def scored_def kept_def)
  have "subseq kept (map fst scored)"
    unfolding kept_def by (rule subseq_filter_by_threshold)
  then have "subseq kept docs" by (simp add: scored_def score_docs_fst)
  with res show ?thesis
    by (simp add: scored_def kept_def sort_desc_sorted sort_desc_stable)
qed

theorem filter_documents_order_witness:
  "fst (filter_documents scripted_llm ''q'' [0, 1, 2, 3] 25 heap0
      [Inr ''40'', Inr ''90'', Inr ''5'', Inr ''70'']) = [0, 1, 3] \<and>
   subseq [0, 1, 3] [0, 1, 2, 3 :: ref] \<and>
   fst (filter_documents scripted_llm ''q'' [0, 1, 2, 3] 25 heap0
      [Inr ''5'', Inr ''20'', Inr ''5'', Inr ''20'']) = [1, 3]"
proof -
  have a: "filter_by_threshold
      (dynamic_threshold 25 (fst (score_docs scripted_llm ''q'' [0, 1, 2, 3] heap0
         [Inr ''40'', Inr ''90'', Inr ''5'', Inr ''70''])))
      (fst (score_docs scripted_llm ''q'' [0, 1, 2, 3] heap0
         [Inr ''40'', Inr ''90'', Inr ''5'', Inr ''70''])) = [0, 1, 3]"
    by code_simp
  have b: "filter_by_threshold
      (dynamic_threshold 25 (fst (score_docs scripted_llm ''q'' [0, 1, 2, 3] heap0
         [Inr ''5'', Inr ''20'', Inr ''5'', Inr ''20''])))
      (fst (score_docs scripted_llm ''q'' [0, 1, 2, 3] heap0
         [Inr ''5'', Inr ''20'', Inr ''5'', Inr ''20''])) = []"
    by code_simp
  have c: "map fst (take 2 (sort_desc snd (fst (score_docs scripted_llm ''q'' [0, 1, 2, 3] heap0
         [Inr ''5'', Inr ''20'', Inr ''5'', Inr ''20''])))) = [1, 3]"
    by code_simp
  show ?thesis
    using filter_documents_order [of "[0, 1, 2, 3]" 25 scripted_llm "''q''" heap0
        "[Inr ''40'', Inr ''90'', Inr ''5'', Inr ''70'']"]
      filter_documents_order [of "[0, 1, 2, 3]" 25 scripted_llm "''q''" heap0
        "[Inr ''5'', Inr ''20'', Inr ''5'', Inr ''20'']"]
    unfolding a b c by simp
qed

section \<open>The dynamic threshold\<close>

lemma lit_0_6_value: "lit_0_6 = 5404319552844595 / 2 ^ 53"
  by code_simp

lemma fl_near:
  assumes "0 \<le> x" "x \<le> 100"
  shows "\<bar>fl x - x\<bar> \<le> 100 / 2 ^ 53"
proof -
  have "\<bar>fl x - x\<bar> \<le> x / 2 ^ 53" using assms(1) by (rule fl_error)
  also have "\<dots> \<le> 100 / 2 ^ 53" using assms(2) by (simp add: divide_right_mono)
  finally show ?thesis .
qed

lemma fl_nonneg:
  assumes "0 \<le> x"
  shows "0 \<le> fl x"
proof -
  have "\<bar>fl x - x\<bar> \<le> x / 2 ^ 53" using assms by (rule fl_error)
  moreover have "x / 2 ^ 53 \<le> x" using assms by (simp add: field_simps)
  ultimately show ?thesis by linarith
qed

text \<open>For a mean between 0 and 100 the two roundings move the product by less than \<open>2 ^ - 44\<close>.\<close>

lemma threshold_product_near:
  assumes "0 \<le> a" "a \<le> 100"
  shows "\<bar>fmul (fl a) lit_0_6 - 6 / 10 * a\<bar> \<le> 300 / 2 ^ 53"
proof -
  define A where "A = fl a"
  define c :: rat where "c = 5404319552844595 / 9007199254740992"
  define P where "P = fl (A * c)"
  have "\<bar>A - a\<bar> \<le> 100 / 2 ^ 53" unfolding A_def using assms by (rule fl_near)
  then have A: "\<bar>A - a\<bar> \<le> 100 / 9007199254740992" by simp
  have A0: "0 \<le> A" unfolding A_def using assms(1) by (rule fl_nonneg)
  have "A \<le> 101" using A assms by linarith
  with A0 have "0 \<le> A * c" "A * c \<le> 100"
    by (simp_all add: c_def)
  then have "\<bar>P - A * c\<bar> \<le> 100 / 2 ^ 53"
    unfolding P_def by (rule fl_near)
  then have P: "\<bar>P - A * (5404319552844595 / 9007199254740992)\<bar> \<le> 100 / 9007199254740992"
    by (simp add: c_def)
  have "\<bar>P - 6 / 10 * a\<bar> \<le> 300 / 9007199254740992"
    using A P assms by linarith
  then show ?thesis by (simp add: fmul_def lit_0_6_value A_def P_def c_def)
qed

lemma sum_list_bounds:
  fixes f :: "'a \<Rightarrow> int"
  assumes "\<forall>x\<in>set xs. lo \<le> f x \<and> f x \<le> hi"
  shows "lo * int (length xs) \<le> sum_list (map f xs) \<and> sum_list (map f xs) \<le> hi * int (length xs)"
  using assms by (induction xs) (auto simp: algebra_simps)

lemma mean_range:
  assumes "xs \<noteq> []" and "\<forall>x\<in>set xs. lo \<le> snd x \<and> snd x \<le> hi"
  shows "rat_of_int lo \<le> of_int (sum_list (map snd xs)) / of_int (int (length xs)) \<and>
         rat_of_int (sum_list (map snd xs)) / of_int (int (length xs)) \<le> of_int hi"
proof -
  define n where "n = int (length xs)"
  define S where "S = sum_list (map snd xs)"
  have n: "0 < n" using assms(1) by (simp add: n_def)
  have "lo * n \<le> S \<and> S \<le> hi * n"
    unfolding n_def S_def using assms(2) by (rule sum_list_bounds)
  then have "rat_of_int (lo * n) \<le> of_int S" "rat_of_int S \<le> of_int (hi * n)"
    by (simp_all only: of_int_le_iff)
  then have "rat_of_int lo * of_int n \<le> of_int S" "rat_of_int S \<le> of_int hi * of_int n"
    by simp_all
  moreover have "0 < rat_of_int n" using n by simp
  ultimately have "rat_of_int lo \<le> of_int S / of_int n \<and> rat_of_int S / of_int n \<le> of_int hi"
    by (simp add: pos_le_divide_eq pos_divide_le_eq)
  then show ?thesis by (simp add: n_def S_def)
qed

lemma length_shift_scores: "length (shift_scores delta scored) = length scored"
  by (simp add: shift_scores_def)

lemma sum_shift_scores:
  "sum_list (map snd (shift_scores delta scored)) =
     sum_list (map snd scored) + delta * int (length scored)"
  by (induction scored) (auto simp: shift_scores_def algebra_simps)

lemma length_filter_map_mono:
  assumes "\<forall>x\<in>set xs. P x \<longrightarrow> Q (f x)"
  shows "length (filter P xs) \<le> length (filter Q (map f xs))"
  using assms by (induction xs) auto

text \<open>
  The double computation and exact arithmetic agree on every test \<open>score >= threshold\<close>:
  an integer score differs from six tenths of the mean by nothing or by at least
  \<open>1 / (5 * n)\<close>, far more than the rounding error, and in the case of equality the
  computed product is not above the score.
\<close>

text \<open>
  When six tenths of the mean is exactly an integer, the computed product is not above it.
\<close>

lemma boundary_product:
  fixes s :: int
  assumes "0 \<le> s" "s < 2 ^ 53"
  shows "fmul (fl (of_int (5 * s) / 3)) lit_0_6 \<le> of_int s"
proof (cases "s = 0")
  case True
  then show ?thesis by (simp add: fmul_def)
next
  case False
  with assms have s: "0 < s" by simp
  define r :: rat where "r = of_int s"
  define a :: rat where "a = of_int (5 * s) / 3"
  define A where "A = fl a"
  define y where "y = A * (5404319552844595 / 9007199254740992)"
  define Pk where "Pk = (2::rat) powi (ilog2 a)"
  define Pe where "Pe = (2::rat) powi (ilog2 r)"
  have r: "0 < r" using s by (simp add: r_def)
  have a_eq: "a = 5 * r / 3" by (simp add: a_def r_def)
  have a: "0 < a" using r by (simp add: a_eq)
  have Pe: "0 < Pe" by (simp add: Pe_def)
  have Pk_le: "Pk \<le> a" unfolding Pk_def using a by (rule ilog2_lower)
  have "r < 2 powi (ilog2 r + 1)" using r by (rule ilog2_upper)
  then have r_up: "r < 2 * Pe" by (simp add: Pe_def power_int_add)
  have "ilog2 a \<le> ilog2 r + 1"
  proof (rule ccontr)
    assume "\<not> ilog2 a \<le> ilog2 r + 1"
    then have "ilog2 r + 2 \<le> ilog2 a" by simp
    then have "(2::rat) powi (ilog2 r + 2) \<le> 2 powi (ilog2 a)"
      by (intro power_int_increasing) simp_all
    then have "4 * Pe \<le> Pk" by (simp add: Pe_def Pk_def power_int_add)
    with Pk_le r_up r show False by (simp add: a_eq)
  qed
  then have "(2::rat) powi (ilog2 a) \<le> 2 powi (ilog2 r + 1)"
    by (intro power_int_increasing) simp_all
  then have Pk_Pe: "Pk \<le> 2 * Pe" by (simp add: Pe_def Pk_def power_int_add)
  have "\<bar>A - a\<bar> \<le> 2 powi (ilog2 a) / 2 ^ 53"
    unfolding A_def using a by (rule fl_half_ulp)
  then have err: "\<bar>A - a\<bar> \<le> Pk / 9007199254740992" by (simp add: Pk_def)
  have A0: "0 \<le> A" unfolding A_def using a by (intro fl_nonneg) simp
  then have y0: "0 \<le> y" by (simp add: y_def)
  have "A \<le> a + Pk / 9007199254740992" using err by linarith
  then have "A \<le> 5 * r / 3 + Pk / 9007199254740992" by (simp add: a_eq)
  moreover have "Pk \<le> 5 * r / 3" using Pk_le by (simp add: a_eq)
  ultimately have "A * (5404319552844595 / 9007199254740992) < r + Pe / 9007199254740992"
    using Pk_Pe Pe r by linarith
  then have less: "y < r + Pe / 9007199254740992" by (simp add: y_def)
  have "fl y \<le> r"
  proof (cases "y \<le> r")
    case True
    with y0 have "fl y \<le> fl r" by (rule fl_mono)
    also have "fl r = r" unfolding r_def using assms by (rule fl_of_int)
    finally show ?thesis .
  next
    case False
    then have "rat_of_int s \<le> y" by (simp add: r_def)
    moreover have "y < rat_of_int s + 2 powi (ilog2 (rat_of_int s)) / 2 ^ 53"
      using less by (simp add: r_def Pe_def)
    ultimately have "fl y = of_int s"
      using s assms(2) by (intro fl_round_down)
    then show ?thesis by (simp add: r_def)
  qed
  then show ?thesis
    by (simp add: fmul_def lit_0_6_value y_def A_def a_def r_def)
qed

lemma threshold_test_exact:
  fixes n S s :: int
  assumes "0 < n" "n \<le> 2 ^ 40" "0 \<le> S" "S \<le> 100 * n" "0 \<le> s" "s \<le> 100"
  shows "fmul (fdiv S n) lit_0_6 \<le> of_int s \<longleftrightarrow>
         6 / 10 * (rat_of_int S / of_int n) \<le> of_int s"
proof -
  define a :: rat where "a = of_int S / of_int n"
  define P where "P = fmul (fl a) lit_0_6"
  define g :: rat where "g = 1 / (5 * of_int n)"
  have nr: "0 < rat_of_int n" using assms(1) by simp
  have a0: "0 \<le> a" using assms(1,3) by (simp add: a_def)
  have "rat_of_int S \<le> of_int (100 * n)" using assms(4) by (simp only: of_int_le_iff)
  then have a1: "a \<le> 100" using nr by (simp add: a_def pos_divide_le_eq)
  have "\<bar>P - 6 / 10 * a\<bar> \<le> 300 / 2 ^ 53"
    unfolding P_def using a0 a1 by (rule threshold_product_near)
  then have p: "\<bar>P - 6 / 10 * a\<bar> \<le> 300 / 9007199254740992" by simp
  have "rat_of_int n \<le> of_int (2 ^ 40)" using assms(2) by (simp only: of_int_le_iff)
  then have "5 * rat_of_int n \<le> 5 * 2 ^ 40" by simp
  then have "1 / (5 * 2 ^ 40) \<le> 1 / (5 * rat_of_int n)"
    using nr by (intro divide_left_mono) simp_all
  then have g: "1 / 5497558138880 \<le> g" by (simp add: g_def)
  have Sa: "rat_of_int S = a * of_int n" using nr by (simp add: a_def)
  have gn: "g * (5 * of_int n) = 1" using nr by (simp add: g_def)
  consider "3 * S + 1 \<le> 5 * s * n" | "3 * S = 5 * s * n" | "5 * s * n + 1 \<le> 3 * S"
    by linarith
  then have "P \<le> of_int s \<longleftrightarrow> 6 / 10 * a \<le> of_int s"
  proof cases
    case 1
    then have "rat_of_int (3 * S + 1) \<le> of_int (5 * s * n)" by (simp only: of_int_le_iff)
    then have "3 * (a * of_int n) + g * (5 * of_int n) \<le> 5 * of_int s * of_int n"
      by (simp add: Sa gn)
    then have "(6 / 10 * a + g) * (5 * of_int n) \<le> of_int s * (5 * of_int n)"
      by (simp add: algebra_simps)
    then have "6 / 10 * a + g \<le> of_int s"
      using nr by (simp only: mult_le_cancel_right; simp)
    with g p show ?thesis by linarith
  next
    case 2
    then have "rat_of_int (3 * S) = of_int (5 * s * n)" by simp
    then have "3 * (a * of_int n) = 5 * of_int s * of_int n" by (simp add: Sa)
    with nr have a_eq: "a = of_int (5 * s) / 3" by simp
    have "s < 2 ^ 53" using assms(6) by simp
    with assms(5) have "P \<le> of_int s"
      unfolding P_def a_eq by (rule boundary_product)
    moreover have "6 / 10 * a \<le> of_int s" by (simp add: a_eq)
    ultimately show ?thesis by simp
  next
    case 3
    then have "rat_of_int (5 * s * n + 1) \<le> of_int (3 * S)" by (simp only: of_int_le_iff)
    then have "5 * rat_of_int s * of_int n + g * (5 * of_int n) \<le> 3 * (a * of_int n)"
      by (simp add: Sa gn)
    then have "(of_int s + g) * (5 * of_int n) \<le> (6 / 10 * a) * (5 * of_int n)"
      by (simp add: algebra_simps)
    then have "of_int s + g \<le> 6 / 10 * a"
      using nr by (simp only: mult_le_cancel_right; simp)
    with g p show ?thesis by linarith
  qed
  then show ?thesis by (simp add: P_def a_def fdiv_def)
qed


lemma filter_by_threshold_exact:
  assumes "scored \<noteq> []" and "int (length scored) \<le> 2 ^ 40"
    and "\<forall>x\<in>set scored. 0 \<le> snd x \<and> snd x \<le> 100"
  shows "filter_by_threshold (dynamic_threshold m scored) scored =
     map fst (filter (\<lambda>x. max (rat_of_int m)
         (6 / 10 * (of_int (sum_list (map snd scored)) / of_int (int (length scored))))
       \<le> of_int (snd x)) scored)"
proof -
  define n where "n = int (length scored)"
  define S where "S = sum_list (map snd scored)"
  have n: "0 < n" using assms(1) by (simp add: n_def)
  have "0 * n \<le> S \<and> S \<le> 100 * n"
    unfolding n_def S_def using assms(3) by (rule sum_list_bounds)
  then have S: "0 \<le> S" "S \<le> 100 * n" by simp_all
  have "(max (of_int m) (fmul (fdiv S n) lit_0_6) \<le> of_int (snd x)) =
        (max (of_int m) (6 / 10 * (rat_of_int S / of_int n)) \<le> of_int (snd x))"
    if "x \<in> set scored" for x
  proof -
    from that assms(3) have "0 \<le> snd x" "snd x \<le> 100" by auto
    with n assms(2) S have "fmul (fdiv S n) lit_0_6 \<le> of_int (snd x) \<longleftrightarrow>
         6 / 10 * (rat_of_int S / of_int n) \<le> of_int (snd x)"
      unfolding n_def[symmetric] by (intro threshold_test_exact)
    then show ?thesis by (simp only: max.bounded_iff)
  qed
  then have "filter (\<lambda>x. max (of_int m) (fmul (fdiv S n) lit_0_6) \<le> of_int (snd x)) scored =
      filter (\<lambda>x. max (of_int m) (6 / 10 * (rat_of_int S / of_int n)) \<le> of_int (snd x)) scored"
    by (intro filter_cong) simp_all
  moreover have "filter_by_threshold thr scored = map fst (filter (\<lambda>x. thr \<le> of_int (snd x)) scored)"
    for thr by (simp add: filter_by_threshold_def split_def)
  moreover have "dynamic_threshold m scored = max (of_int m) (fmul (fdiv S n) lit_0_6)"
    by (simp add: dynamic_threshold_def S_def n_def)
  ultimately show ?thesis
    unfolding S_def n_def by (simp only:)
qed

text \<open>
  Claim C2, as the code has it.  The threshold is the larger of \<open>min_score\<close> and the
  double product of the double mean with the double \<open>0.6\<close>.  For a list of at most
  \<open>2 ^ 40\<close> documents the threshold step keeps exactly the documents whose score is at
  least \<open>max(min_score, mean * 0.6)\<close> in exact arithmetic.  For the scores 90, 85, 10, 5,
  50 and \<open>min_score = 25\<close> the mean is 48; the exact product of 48 with the double \<open>0.6\<close>
  lies halfway between two doubles and is rounded to the even one, which is
  \<open>8106479329266892 / 2 ^ 48\<close>, printed by Python as 28.799999999999997.  It is below
  28.8 by \<open>1 / (5 * 2 ^ 46)\<close>.  The documents kept are those scoring 90, 85 and 50.
\<close>

theorem threshold_step:
  assumes "docs \<noteq> []" and "int (length docs) \<le> 2 ^ 40"
  shows "dynamic_threshold min_score (fst (score_docs llm query docs h s)) =
      max (of_int min_score)
        (fmul (fdiv (sum_list (map snd (fst (score_docs llm query docs h s))))
                 (int (length (fst (score_docs llm query docs h s))))) lit_0_6) \<and>
    filter_by_threshold (dynamic_threshold min_score (fst (score_docs llm query docs h s)))
        (fst (score_docs llm query docs h s)) =
      map fst (filter (\<lambda>x. max (rat_of_int min_score)
          (6 / 10 * (of_int (sum_list (map snd (fst (score_docs llm query docs h s))))
                     / of_int (int (length (fst (score_docs llm query docs h s))))))
        \<le> of_int (snd x)) (fst (score_docs llm query docs h s))) \<and>
    dynamic_threshold 25 [(0, 90), (1, 85), (2, 10), (3, 5), (4, 50)]
      = 8106479329266892 / 2 ^ 48 \<and>
    144 / 5 - dynamic_threshold 25 [(0, 90), (1, 85), (2, 10), (3, 5), (4, 50)]
      = 1 / (5 * 2 ^ 46) \<and>
    fst (filter_documents scripted_llm ''q'' [0, 1, 2, 3, 4] 25 heap0
       [Inr ''90'', Inr ''85'', Inr ''10'', Inr ''5'', Inr ''50'']) = [0, 1, 4]"
proof -
  define scored where "scored = fst (score_docs llm query docs h s)"
  have "length (map fst scored) = length docs"
    unfolding scored_def by (simp only: score_docs_fst)
  then have len: "length scored = length docs" by simp
  with assms have ne: "scored \<noteq> []" and bound: "int (length scored) \<le> 2 ^ 40" by auto
  have range: "\<forall>x\<in>set scored. 0 \<le> snd x \<and> snd x \<le> 100"
    unfolding scored_def by (rule score_docs_range)
  have 1: "dynamic_threshold 25 [(0, 90), (1, 85), (2, 10), (3, 5), (4, 50)]
     = 8106479329266892 / 2 ^ 48"
    by code_simp
  have 2: "fst (filter_documents scripted_llm ''q'' [0, 1, 2, 3, 4] 25 heap0
      [Inr ''90'', Inr ''85'', Inr ''10'', Inr ''5'', Inr ''50'']) = [0, 1, 4]"
    by code_simp
  have 3: "dynamic_threshold min_score scored =
      max (of_int min_score)
        (fmul (fdiv (sum_list (map snd scored)) (int (length scored))) lit_0_6)"
    by (simp add: dynamic_threshold_def)
  have 4: "(144::rat) / 5 - 8106479329266892 / 2 ^ 48 = 1 / (5 * 2 ^ 46)" by simp
  show ?thesis
    unfolding scored_def[symmetric] 1 2
    using 3 4 filter_by_threshold_exact[OF ne bound range, of min_score] by simp
qed

theorem threshold_step_witness:
  "[0, 1, 2, 3, 4] \<noteq> ([] :: ref list) \<and>
   filter_by_threshold
       (dynamic_threshold 25 (fst (score_docs scripted_llm ''q'' [0, 1, 2, 3, 4] heap0
          [Inr ''90'', Inr ''85'', Inr ''10'', Inr ''5'', Inr ''50''])))
       (fst (score_docs scripted_llm ''q'' [0, 1, 2, 3, 4] heap0
          [Inr ''90'', Inr ''85'', Inr ''10'', Inr ''5'', Inr ''50''])) = [0, 1, 4]"
proof -
  have sc: "fst (score_docs scripted_llm ''q'' [0, 1, 2, 3, 4] heap0
       [Inr ''90'', Inr ''85'', Inr ''10'', Inr ''5'', Inr ''50''])
      = [(0, 90), (1, 85), (2, 10), (3, 5), (4, 50)]"
    by code_simp
  have ne: "[0, 1, 2, 3, 4] \<noteq> ([] :: ref list)" by simp
  have len: "int (length [0, 1, 2, 3, 4 :: ref]) \<le> 2 ^ 40" by simp
  note step = threshold_step [OF ne len, of 25 scripted_llm "''q''" heap0
      "[Inr ''90'', Inr ''85'', Inr ''10'', Inr ''5'', Inr ''50'']"]
  show ?thesis
    using step [THEN conjunct2, THEN conjunct1] unfolding sc by simp
qed

text \<open>The threshold of the scenario is not the rational 28.8 of claim C2.\<close>

theorem dynamic_threshold_scenario_counterexample:
  "dynamic_threshold 25 [(0, 90), (1, 85), (2, 10), (3, 5), (4, 50)] \<noteq> 144 / 5"
  by code_simp

text \<open>
  Claim C3, as the code has it.  Oracle scores lie between 0 and 100.  When every score
  of a non-empty list is raised by the same \<open>delta > 0\<close> and stays in that range, the
  threshold does not decrease and the number of documents that meet the threshold does
  not decrease.
\<close>

theorem dynamic_threshold_shift:
  assumes "scored \<noteq> []" and "0 < delta"
    and "\<forall>x\<in>set scored. 0 \<le> snd x \<and> snd x + delta \<le> 100"
  shows "dynamic_threshold m scored \<le> dynamic_threshold m (shift_scores delta scored) \<and>
         length (filter_by_threshold (dynamic_threshold m scored) scored)
           \<le> length (filter_by_threshold (dynamic_threshold m (shift_scores delta scored))
                (shift_scores delta scored))"
proof -
  define n where "n = int (length scored)"
  define S where "S = sum_list (map snd scored)"
  define a :: rat where "a = of_int S / of_int n"
  define d :: rat where "d = of_int delta"
  define P where "P = fmul (fl a) lit_0_6"
  define P' where "P' = fmul (fl (a + d)) lit_0_6"
  have n: "0 < n" using assms(1) by (simp add: n_def)
  have d1: "1 \<le> d" using assms(2) by (simp add: d_def)
  have "\<forall>x\<in>set scored. 0 \<le> snd x \<and> snd x \<le> 100 - delta"
    using assms(3) by auto
  from mean_range[OF assms(1) this]
  have a0: "0 \<le> a" and a1: "a + d \<le> 100"
    by (simp_all add: a_def S_def n_def d_def)
  have a2: "a \<le> 100" and a3: "0 \<le> a + d" using a0 a1 d1 by linarith+
  have "\<bar>P - 6 / 10 * a\<bar> \<le> 300 / 2 ^ 53"
    unfolding P_def using a0 a2 by (rule threshold_product_near)
  then have p: "\<bar>P - 6 / 10 * a\<bar> \<le> 300 / 9007199254740992" by simp
  have "\<bar>P' - 6 / 10 * (a + d)\<bar> \<le> 300 / 2 ^ 53"
    unfolding P'_def using a3 a1 by (rule threshold_product_near)
  then have p': "\<bar>P' - (6 / 10 * a + 6 / 10 * d)\<bar> \<le> 300 / 9007199254740992"
    by (simp add: distrib_left)
  have up: "P \<le> P'"
    using p p' d1 by linarith
  have step: "P' \<le> P + d"
    using p p' d1 by linarith
  have T: "dynamic_threshold m scored = max (of_int m) P"
    by (simp add: dynamic_threshold_def P_def fdiv_def a_def S_def n_def)
  have "rat_of_int (S + delta * n) / of_int n = a + d"
    using n by (simp add: a_def d_def add_divide_distrib)
  then have T': "dynamic_threshold m (shift_scores delta scored) = max (of_int m) P'"
    by (simp add: dynamic_threshold_def P'_def fdiv_def sum_shift_scores length_shift_scores
        S_def n_def)
  have mono: "max (of_int m) P \<le> max (of_int m) P'"
    using up by (simp add: max.coboundedI2 max_def)
  have bound: "max (of_int m) P' \<le> max (of_int m) P + d"
    using step d1 by (simp add: max_def)
  have "\<forall>x\<in>set scored. (case x of (doc, score) \<Rightarrow> max (of_int m) P \<le> of_int score) \<longrightarrow>
      (case (case x of (doc, score) \<Rightarrow> (doc, score + delta)) of
         (doc, score) \<Rightarrow> max (of_int m) P' \<le> of_int score)"
    using bound by (auto simp: d_def)
  then have "length (filter (\<lambda>(doc, score). max (of_int m) P \<le> of_int score) scored)
      \<le> length (filter (\<lambda>(doc, score). max (of_int m) P' \<le> of_int score)
           (map (\<lambda>(doc, score). (doc, score + delta)) scored))"
    by (rule length_filter_map_mono)
  then have "length (filter_by_threshold (max (of_int m) P) scored)
      \<le> length (filter_by_threshold (max (of_int m) P') (shift_scores delta scored))"
    by (simp add: filter_by_threshold_def shift_scores_def)
  with mono show ?thesis by (simp add: T T')
qed

theorem dynamic_threshold_shift_witness:
  "dynamic_threshold 25 [(0, 40), (1, 50), (2, 90)]
     \<le> dynamic_threshold 25 (shift_scores 10 [(0, 40), (1, 50), (2, 90)]) \<and>
   length (filter_by_threshold (dynamic_threshold 25 [(0, 40), (1, 50), (2, 90)])
       [(0, 40), (1, 50), (2, 90)])
     \<le> length (filter_by_threshold
         (dynamic_threshold 25 (shift_scores 10 [(0, 40), (1, 50), (2, 90)]))
         (shift_scores 10 [(0, 40), (1, 50), (2, 90)]))"
  using dynamic_threshold_shift [of "[(0, 40), (1, 50), (2, 90)]" 10 25]
  by simp

text \<open>
  The final result can shrink.  Scores 10, 0, 0 meet no threshold of 25 and the fallback
  returns two documents; raised by 20 to 30, 20, 20 one document meets the threshold and
  it alone is returned.
\<close>

theorem filter_documents_shift_counterexample:
  "length (fst (filter_documents scripted_llm ''q'' [0, 1, 2] 25 heap0
       [Inr ''30'', Inr ''20'', Inr ''20'']))
     < length (fst (filter_documents scripted_llm ''q'' [0, 1, 2] 25 heap0
       [Inr ''10'', Inr ''0'', Inr ''0'']))"
  by code_simp

end
